theory Spec2Isabelle
  imports Main "HOL-Library.Multiset"
begin

section \<open>The bounded buffer of \<open>buffer.cpp\<close>\<close>

text \<open>
  \<^verbatim>\<open>BoundedBuffer<T>\<close> holds a \<^verbatim>\<open>std::queue<std::optional<T>> q_\<close> and a
  \<^verbatim>\<open>size_t cap_\<close>. A slot \<^verbatim>\<open>std::optional<T>\<close> is an \<open>'a option\<close>: \<open>Some x\<close> is a
  payload and \<open>None\<close> is \<^verbatim>\<open>std::nullopt\<close>, the end-of-stream marker. The queue is the
  list of its slots, front first. \<^verbatim>\<open>cap_\<close> is only ever compared with \<^verbatim>\<open>q_.size()\<close>,
  never computed with, so both are natural numbers. The fields are named \<open>q\<close> and \<open>cap\<close>
  (a name cannot end in an underscore here).

  The two mutexes and the two condition variables carry no data. The definitions of this
  section give the effect of a call that no other call overlaps: a call of \<^verbatim>\<open>push\<close> or
  \<^verbatim>\<open>pop\<close> is one step that happens when the predicate of its \<^verbatim>\<open>wait\<close> holds; while the
  predicate is false the call has not happened, which the model returns as \<open>None\<close>. Calls that
  overlap on several threads are the subject of the statement-level model further down:
  \<^verbatim>\<open>push\<close> locks \<^verbatim>\<open>producer_mtx_\<close>, \<^verbatim>\<open>pop\<close> locks \<^verbatim>\<open>consumer_mtx_\<close> and \<^verbatim>\<open>size\<close> locks
  nothing, so the three are not atomic against each other.
\<close>

record 'a BoundedBuffer =
  q :: "'a option list"
  cap :: nat

text \<open>\<^verbatim>\<open>BoundedBuffer(size_t cap) : cap_(cap) {}\<close>: the queue is default-constructed, empty.\<close>

definition construct :: "nat \<Rightarrow> 'a BoundedBuffer" where
  "construct n = \<lparr>q = [], cap = n\<rparr>"

text \<open>\<^verbatim>\<open>size_t size() { return q_.size(); }\<close>: a member function, so it is given the
  buffer and hands it back with the result.\<close>

definition size_bb :: "'a BoundedBuffer \<Rightarrow> nat \<times> 'a BoundedBuffer" where
  "size_bb b = (length (q b), b)"

text \<open>\<^verbatim>\<open>push\<close>: wait for \<^verbatim>\<open>q_.size() < cap_\<close>, then \<^verbatim>\<open>q_.push(data)\<close>. It returns
  \<^verbatim>\<open>void\<close>, so the result is the buffer alone.\<close>

definition push :: "'a option \<Rightarrow> 'a BoundedBuffer \<Rightarrow> 'a BoundedBuffer option" where
  "push data b =
     (if length (q b) < cap b then Some (b\<lparr>q := q b @ [data]\<rparr>) else None)"

text \<open>\<^verbatim>\<open>pop\<close>: wait for \<^verbatim>\<open>!q_.empty()\<close>, then \<^verbatim>\<open>data = q_.front(); q_.pop(); return data\<close>.\<close>

definition pop :: "'a BoundedBuffer \<Rightarrow> ('a option \<times> 'a BoundedBuffer) option" where
  "pop b =
     (if q b \<noteq> [] then Some (hd (q b), b\<lparr>q := tl (q b)\<rparr>) else None)"

text \<open>\<^verbatim>\<open>producer_done\<close>: \<^verbatim>\<open>buf->push(std::nullopt)\<close>.\<close>

definition producer_done :: "'a BoundedBuffer \<Rightarrow> 'a BoundedBuffer option" where
  "producer_done buf = push None buf"

subsection \<open>Runs: calls made one after another\<close>

text \<open>
  The calls a thread can make on a shared buffer, and what a completed call returns.
  \<open>Push v\<close> is \<^verbatim>\<open>buf->push(v)\<close>, \<open>ProducerDone\<close> is \<^verbatim>\<open>producer_done(buf)\<close>, \<open>Pop\<close> is
  \<^verbatim>\<open>buf->pop()\<close> and \<open>Size\<close> is \<^verbatim>\<open>buf->size()\<close>.
\<close>

datatype 'a call = Push "'a option" | ProducerDone | Pop | Size

datatype 'a ret = Void | Value "'a option" | Count nat

fun call_step :: "'a call \<Rightarrow> 'a BoundedBuffer \<Rightarrow> ('a ret \<times> 'a BoundedBuffer) option" where
  "call_step (Push v) b = map_option (\<lambda>b'. (Void, b')) (push v b)"
| "call_step ProducerDone b = map_option (\<lambda>b'. (Void, b')) (producer_done b)"
| "call_step Pop b = map_option (\<lambda>(v, b'). (Value v, b')) (pop b)"
| "call_step Size b = (case size_bb b of (k, b') \<Rightarrow> Some (Count k, b'))"

text \<open>
  A run is a sequence of calls made one after another, each entered when the one before
  has returned. A call whose wait predicate is false in the state it meets does not return,
  so such a sequence is no run: \<open>None\<close>.
\<close>

fun run :: "'a BoundedBuffer \<Rightarrow> 'a call list \<Rightarrow> ('a ret list \<times> 'a BoundedBuffer) option" where
  "run b [] = Some ([], b)"
| "run b (c # cs) =
     (case call_step c b of
        None \<Rightarrow> None
      | Some (r, b') \<Rightarrow>
          (case run b' cs of
             None \<Rightarrow> None
           | Some (rs, b'') \<Rightarrow> Some (r # rs, b'')))"

text \<open>The slots a sequence of calls enqueues, and the slots its pops return, in order.\<close>

fun pushed :: "'a call list \<Rightarrow> 'a option list" where
  "pushed [] = []"
| "pushed (Push v # cs) = v # pushed cs"
| "pushed (ProducerDone # cs) = None # pushed cs"
| "pushed (c # cs) = pushed cs"

fun popped :: "'a ret list \<Rightarrow> 'a option list" where
  "popped [] = []"
| "popped (Value v # rs) = v # popped rs"
| "popped (r # rs) = popped rs"

fun is_pop :: "'a call \<Rightarrow> bool" where
  "is_pop Pop = True"
| "is_pop c = False"

fun is_payload_push :: "'a call \<Rightarrow> bool" where
  "is_payload_push (Push (Some x)) = True"
| "is_payload_push c = False"

fun is_eos_push :: "'a call \<Rightarrow> bool" where
  "is_eos_push (Push None) = True"
| "is_eos_push ProducerDone = True"
| "is_eos_push c = False"

text \<open>The calls of a sequence that come before its first \<open>Pop\<close>.\<close>

fun before_first_pop :: "'a call list \<Rightarrow> 'a call list" where
  "before_first_pop [] = []"
| "before_first_pop (Pop # cs) = []"
| "before_first_pop (c # cs) = c # before_first_pop cs"


text \<open>
  Where a property speaks of which thread makes a call, a call is paired with the number of
  the thread that makes it. The buffer does not see the thread: a run of such events is the
  run of their calls, \<open>map snd\<close>.
\<close>

type_synonym 'a event = "nat \<times> 'a call"

subsection \<open>The statements of \<open>push\<close>, \<open>pop\<close> and \<open>size\<close> on several threads\<close>

text \<open>
  \<^verbatim>\<open>push\<close> runs under \<^verbatim>\<open>producer_mtx_\<close> and \<^verbatim>\<open>pop\<close> under \<^verbatim>\<open>consumer_mtx_\<close>: two pushes
  exclude each other and so do two pops, but a push, a pop and any number of \<^verbatim>\<open>size\<close> calls
  run at the same time. The system state is the buffer, how far the thread holding each
  mutex has come, and the number of threads inside \<^verbatim>\<open>size\<close>.

  An operation on \<^verbatim>\<open>q_\<close> is not one step: it begins and it ends, and other threads take steps
  in between. The holder of \<^verbatim>\<open>producer_mtx_\<close>: nobody past the wait (\<open>PIdle\<close>); a push of
  \<open>data\<close> inside the \<^verbatim>\<open>q_.size()\<close> of its wait predicate (\<open>PTesting data\<close>); past the wait, which
  found \<^verbatim>\<open>q_.size() < cap_\<close> (\<open>PPassed data\<close>); inside \<^verbatim>\<open>q_.push(data)\<close> (\<open>PPushing data\<close>);
  past it (\<open>PPushed\<close>). The holder of \<^verbatim>\<open>consumer_mtx_\<close>: nobody past the wait (\<open>CIdle\<close>); a
  pop inside the \<^verbatim>\<open>q_.empty()\<close> of its wait predicate (\<open>CTesting\<close>); past the wait
  (\<open>CPassed\<close>); inside \<^verbatim>\<open>q_.front()\<close> (\<open>CFronting\<close>); holding the value read
  (\<open>CFetched data\<close>); inside \<^verbatim>\<open>q_.pop()\<close> (\<open>CPopping data\<close>); past it (\<open>CPopped data\<close>).
\<close>

datatype 'a pside = PIdle | PTesting "'a option" | PPassed "'a option" | PPushing "'a option" | PPushed

datatype 'a cside =
  CIdle | CTesting | CPassed | CFronting | CFetched "'a option" | CPopping "'a option"
  | CPopped "'a option"

record 'a sys =
  buf :: "'a BoundedBuffer"
  in_push :: "'a pside"
  in_pop :: "'a cside"
  in_size :: nat

text \<open>
  Which side is inside an operation that reads \<^verbatim>\<open>q_\<close> (\<^verbatim>\<open>size\<close>, \<^verbatim>\<open>empty\<close>, \<^verbatim>\<open>front\<close>) or
  writes it (\<^verbatim>\<open>push\<close>, \<^verbatim>\<open>pop\<close>).
\<close>

fun push_reads :: "'a pside \<Rightarrow> bool" where
  "push_reads (PTesting data) = True"
| "push_reads p = False"

fun push_writes :: "'a pside \<Rightarrow> bool" where
  "push_writes (PPushing data) = True"
| "push_writes p = False"

fun pop_reads :: "'a cside \<Rightarrow> bool" where
  "pop_reads CTesting = True"
| "pop_reads CFronting = True"
| "pop_reads c = False"

fun pop_writes :: "'a cside \<Rightarrow> bool" where
  "pop_writes (CPopping data) = True"
| "pop_writes c = False"

text \<open>
  The statements in source order. For \<^verbatim>\<open>push\<close>: the test of the wait predicate, which
  takes the mutex, and passes the wait or gives the mutex back and sleeps; \<^verbatim>\<open>q_.push(data)\<close>;
  \<^verbatim>\<open>lk.unlock()\<close>. For \<^verbatim>\<open>pop\<close>: the test, \<^verbatim>\<open>q_.front()\<close>, \<^verbatim>\<open>q_.pop()\<close>, and
  \<^verbatim>\<open>lk.unlock()\<close> with the return. For \<^verbatim>\<open>size\<close>: \<^verbatim>\<open>q_.size()\<close>, under no mutex.
  \<^verbatim>\<open>notify_all\<close> touches no data, and whether a sleeping thread is ever woken is not
  modelled: the model is about what can happen, not about what must.

  A statement that is not the next one of the thread holding its mutex is \<open>Disabled\<close>. When
  an operation on \<^verbatim>\<open>q_\<close> begins while another thread is inside an operation on \<^verbatim>\<open>q_\<close> and
  one of the two writes, the two conflict and neither happens before the other: a data
  race, for which C++ defines no behaviour, \<open>DataRace\<close>. \<^verbatim>\<open>front()\<close> and \<^verbatim>\<open>pop()\<close> on an empty
  \<^verbatim>\<open>std::queue\<close> have no defined behaviour either: \<open>Undefined\<close>.

  Overlap is enough for a race, and it is what the model detects; the model does not say that
  C++ orders every pair of operations that do not overlap. An operation that no conflicting
  one overlaps is taken to take effect when it ends, and the step that completes the effect
  of a call on the queue reports the call and what it returns.
\<close>

datatype 'a stmt =
  PTestBegin "'a option" | PTestEnd | PPushBegin | PPushEnd | PUnlock
  | CTestBegin | CTestEnd | CFrontBegin | CFrontEnd | CPopBegin | CPopEnd | CUnlock
  | SizeBegin | SizeEnd

datatype 'a outcome = Disabled | DataRace | Undefined | Next "('a call \<times> 'a ret) list" "'a sys"

fun stmt_step :: "'a stmt \<Rightarrow> 'a sys \<Rightarrow> 'a outcome" where
  "stmt_step (PTestBegin data) s =
     (if in_push s \<noteq> PIdle then Disabled
      else if pop_writes (in_pop s) then DataRace
      else Next [] (s\<lparr>in_push := PTesting data\<rparr>))"
| "stmt_step PTestEnd s =
     (case in_push s of
        PTesting data \<Rightarrow>
          Next [] (s\<lparr>in_push := (if length (q (buf s)) < cap (buf s) then PPassed data else PIdle)\<rparr>)
      | _ \<Rightarrow> Disabled)"
| "stmt_step PPushBegin s =
     (case in_push s of
        PPassed data \<Rightarrow>
          (if pop_reads (in_pop s) \<or> pop_writes (in_pop s) \<or> 0 < in_size s then DataRace
           else Next [] (s\<lparr>in_push := PPushing data\<rparr>))
      | _ \<Rightarrow> Disabled)"
| "stmt_step PPushEnd s =
     (case in_push s of
        PPushing data \<Rightarrow>
          Next [(Push data, Void)] (s\<lparr>buf := (buf s)\<lparr>q := q (buf s) @ [data]\<rparr>, in_push := PPushed\<rparr>)
      | _ \<Rightarrow> Disabled)"
| "stmt_step PUnlock s =
     (if in_push s = PPushed then Next [] (s\<lparr>in_push := PIdle\<rparr>) else Disabled)"
| "stmt_step CTestBegin s =
     (if in_pop s \<noteq> CIdle then Disabled
      else if push_writes (in_push s) then DataRace
      else Next [] (s\<lparr>in_pop := CTesting\<rparr>))"
| "stmt_step CTestEnd s =
     (if in_pop s = CTesting
      then Next [] (s\<lparr>in_pop := (if q (buf s) \<noteq> [] then CPassed else CIdle)\<rparr>)
      else Disabled)"
| "stmt_step CFrontBegin s =
     (if in_pop s \<noteq> CPassed then Disabled
      else if push_writes (in_push s) then DataRace
      else Next [] (s\<lparr>in_pop := CFronting\<rparr>))"
| "stmt_step CFrontEnd s =
     (if in_pop s \<noteq> CFronting then Disabled
      else if q (buf s) = [] then Undefined
      else Next [] (s\<lparr>in_pop := CFetched (hd (q (buf s)))\<rparr>))"
| "stmt_step CPopBegin s =
     (case in_pop s of
        CFetched data \<Rightarrow>
          (if push_reads (in_push s) \<or> push_writes (in_push s) \<or> 0 < in_size s then DataRace
           else Next [] (s\<lparr>in_pop := CPopping data\<rparr>))
      | _ \<Rightarrow> Disabled)"
| "stmt_step CPopEnd s =
     (case in_pop s of
        CPopping data \<Rightarrow>
          (if q (buf s) = [] then Undefined
           else Next [(Pop, Value data)]
                  (s\<lparr>buf := (buf s)\<lparr>q := tl (q (buf s))\<rparr>, in_pop := CPopped data\<rparr>))
      | _ \<Rightarrow> Disabled)"
| "stmt_step CUnlock s =
     (case in_pop s of CPopped data \<Rightarrow> Next [] (s\<lparr>in_pop := CIdle\<rparr>) | _ \<Rightarrow> Disabled)"
| "stmt_step SizeBegin s =
     (if push_writes (in_push s) \<or> pop_writes (in_pop s) then DataRace
      else Next [] (s\<lparr>in_size := Suc (in_size s)\<rparr>))"
| "stmt_step SizeEnd s =
     (if in_size s = 0 then Disabled
      else Next [(Size, Count (length (q (buf s))))] (s\<lparr>in_size := in_size s - 1\<rparr>))"

fun stmt_run :: "'a sys \<Rightarrow> 'a stmt list \<Rightarrow> 'a outcome" where
  "stmt_run s [] = Next [] s"
| "stmt_run s (st # sts) =
     (case stmt_step st s of
        Next done1 s' \<Rightarrow>
          (case stmt_run s' sts of
             Next done2 s'' \<Rightarrow> Next (done1 @ done2) s''
           | out \<Rightarrow> out)
      | out \<Rightarrow> out)"

text \<open>A new buffer with no thread inside \<^verbatim>\<open>push\<close>, \<^verbatim>\<open>pop\<close> or \<^verbatim>\<open>size\<close>.\<close>

definition start :: "nat \<Rightarrow> 'a sys" where
  "start n = \<lparr>buf = construct n, in_push = PIdle, in_pop = CIdle, in_size = 0\<rparr>"

text \<open>
  What holds between the statements as long as no race has happened: the occupancy is within
  the capacity; a push past its wait still has room; a pop past its wait still has a head,
  and the head it has read is still the head.
\<close>

definition stmt_inv :: "'a sys \<Rightarrow> bool" where
  "stmt_inv s =
     (length (q (buf s)) \<le> cap (buf s) \<and>
      (case in_push s of
         PPassed data \<Rightarrow> length (q (buf s)) < cap (buf s)
       | PPushing data \<Rightarrow> length (q (buf s)) < cap (buf s)
       | _ \<Rightarrow> True) \<and>
      (case in_pop s of
         CPassed \<Rightarrow> q (buf s) \<noteq> []
       | CFronting \<Rightarrow> q (buf s) \<noteq> []
       | CFetched data \<Rightarrow> q (buf s) \<noteq> [] \<and> hd (q (buf s)) = data
       | CPopping data \<Rightarrow> q (buf s) \<noteq> [] \<and> hd (q (buf s)) = data
       | _ \<Rightarrow> True))"

section \<open>Properties of single calls and of runs\<close>

lemma construct_sel [simp]: "q (construct n) = []" "cap (construct n) = n"
  by (simp_all add: construct_def)

lemma run_Cons_Some:
  "run b (c # cs) = Some (rs, b') \<longleftrightarrow>
     (\<exists>r b1 rs1. call_step c b = Some (r, b1) \<and> run b1 cs = Some (rs1, b') \<and> rs = r # rs1)"
  by (auto split: option.splits)

lemma call_step_cap: "call_step c b = Some (r, b') \<Longrightarrow> cap b' = cap b"
  by (cases c) (auto simp: push_def pop_def producer_done_def size_bb_def split: if_splits)

lemma run_cap: "run b cs = Some (rs, b') \<Longrightarrow> cap b' = cap b"
proof (induction cs arbitrary: b rs)
  case Nil then show ?case by simp
next
  case (Cons c cs)
  from Cons.prems obtain r b1 rs1 where s: "call_step c b = Some (r, b1)" and r: "run b1 cs = Some (rs1, b')"
    unfolding run_Cons_Some by blast
  show ?case using Cons.IH[OF r] call_step_cap[OF s] by simp
qed

lemma call_step_bound: "call_step c b = Some (r, b') \<Longrightarrow> length (q b) \<le> cap b \<Longrightarrow> length (q b') \<le> cap b"
  by (cases c) (auto simp: push_def pop_def producer_done_def size_bb_def split: if_splits)

lemma run_bound: "run b cs = Some (rs, b') \<Longrightarrow> length (q b) \<le> cap b \<Longrightarrow> length (q b') \<le> cap b"
proof (induction cs arbitrary: b rs)
  case Nil then show ?case by simp
next
  case (Cons c cs)
  from Cons.prems obtain r b1 rs1 where s: "call_step c b = Some (r, b1)" and r: "run b1 cs = Some (rs1, b')"
    unfolding run_Cons_Some by blast
  have "length (q b1) \<le> cap b1" using call_step_bound[OF s Cons.prems(2)] call_step_cap[OF s] by simp
  from Cons.IH[OF r this] show ?case using call_step_cap[OF s] by simp
qed

lemma call_step_fifo: "call_step c b = Some (r, b') \<Longrightarrow> q b @ pushed [c] = popped [r] @ q b'"
  by (cases c) (auto simp: push_def pop_def producer_done_def size_bb_def split: if_splits)

lemma pushed_Cons: "pushed (c # cs) = pushed [c] @ pushed cs"
  by (cases c) auto
lemma popped_Cons: "popped (r # rs) = popped [r] @ popped rs"
  by (cases r) auto

lemma run_fifo: "run b cs = Some (rs, b') \<Longrightarrow> q b @ pushed cs = popped rs @ q b'"
proof (induction cs arbitrary: b rs)
  case Nil then show ?case by simp
next
  case (Cons c cs)
  from Cons.prems obtain r b1 rs1 where s: "call_step c b = Some (r, b1)" and r: "run b1 cs = Some (rs1, b')" and rs: "rs = r # rs1"
    unfolding run_Cons_Some by blast
  have "q b @ pushed (c # cs) = (q b @ pushed [c]) @ pushed cs" using pushed_Cons[of c cs] by simp
  also have "\<dots> = popped [r] @ q b1 @ pushed cs" using call_step_fifo[OF s] by simp
  also have "\<dots> = popped [r] @ popped rs1 @ q b'" using Cons.IH[OF r] by simp
  finally show ?case using rs popped_Cons[of r rs1] by simp
qed

lemma run_append:
  "run b (cs @ ds) =
     (case run b cs of None \<Rightarrow> None
      | Some (rs, b1) \<Rightarrow> (case run b1 ds of None \<Rightarrow> None | Some (rs', b2) \<Rightarrow> Some (rs @ rs', b2)))"
  by (induction cs arbitrary: b) (auto split: option.splits)

lemma popped_append: "popped (rs @ rs') = popped rs @ popped rs'"
  by (induction rs rule: popped.induct) auto

lemma call_step_popped_length: "call_step c b = Some (r, b') \<Longrightarrow> length (popped [r]) = (if is_pop c then 1 else 0)"
  by (cases c) (auto simp: push_def pop_def producer_done_def size_bb_def split: if_splits)

lemma run_popped_length: "run b cs = Some (rs, b') \<Longrightarrow> length (popped rs) = length (filter is_pop cs)"
proof (induction cs arbitrary: b rs)
  case Nil then show ?case by simp
next
  case (Cons c cs)
  from Cons.prems obtain r b1 rs1 where s: "call_step c b = Some (r, b1)" and r: "run b1 cs = Some (rs1, b')" and rs: "rs = r # rs1"
    unfolding run_Cons_Some by blast
  show ?case using Cons.IH[OF r] call_step_popped_length[OF s] rs popped_Cons[of r rs1] by simp
qed

lemma run_pushes:
  "length (q b) + length xs \<le> cap b \<Longrightarrow>
     run b (map Push xs) = Some (replicate (length xs) Void, b\<lparr>q := q b @ xs\<rparr>)"
proof (induction xs arbitrary: b)
  case Nil then show ?case by simp
next
  case (Cons x xs)
  let ?b1 = "b\<lparr>q := q b @ [x]\<rparr>"
  have s: "call_step (Push x) b = Some (Void, ?b1)" using Cons.prems by (simp add: push_def)
  have "length (q ?b1) + length xs \<le> cap ?b1" using Cons.prems by simp
  from Cons.IH[OF this] show ?case using s by simp
qed


lemma run_pops:
  "k \<le> length (q b) \<Longrightarrow>
     run b (replicate k Pop) = Some (map Value (take k (q b)), b\<lparr>q := drop k (q b)\<rparr>)"
proof (induction k arbitrary: b)
  case 0 then show ?case by simp
next
  case (Suc k)
  then obtain x xs where qb: "q b = x # xs" by (cases "q b") auto
  let ?b1 = "b\<lparr>q := xs\<rparr>"
  have s: "call_step Pop b = Some (Value x, ?b1)" using qb by (simp add: pop_def)
  have "k \<le> length (q ?b1)" using Suc.prems qb by simp
  from Suc.IH[OF this] show ?case using s qb by simp
qed

lemma popped_Voids: "popped (replicate k Void) = []"
  by (induction k) simp_all

lemma popped_Values: "popped (map Value xs) = xs"
  by (induction xs) simp_all

lemma pushes_then_pops:
  assumes "length xs \<le> n"
  shows "run (construct n) (map Push xs @ replicate (length xs) Pop) =
           Some (replicate (length xs) Void @ map Value xs, construct n)"
proof -
  have 1: "run (construct n) (map Push xs) = Some (replicate (length xs) Void, \<lparr>q = xs, cap = n\<rparr>)"
    using run_pushes[of "construct n" xs] assms by (simp add: construct_def)
  have 2: "run \<lparr>q = xs, cap = n\<rparr> (replicate (length xs) Pop) = Some (map Value xs, construct n)"
    using run_pops[of "length xs" "\<lparr>q = xs, cap = n\<rparr>"] by (simp add: construct_def)
  show ?thesis by (simp add: run_append 1 2)
qed

subsection \<open>End-of-stream markers in a run\<close>




subsection \<open>Interleavings of three calls with three calls\<close>

lemma shuffles_scenario:
  "shuffles [a1, a2, a3] [p1, p2, p3] =
    {[a1,a2,a3,p1,p2,p3], [a1,a2,p1,a3,p2,p3], [a1,a2,p1,p2,a3,p3], [a1,a2,p1,p2,p3,a3],
     [a1,p1,a2,a3,p2,p3], [a1,p1,a2,p2,a3,p3], [a1,p1,a2,p2,p3,a3],
     [a1,p1,p2,a2,a3,p3], [a1,p1,p2,a2,p3,a3], [a1,p1,p2,p3,a2,a3],
     [p1,a1,a2,a3,p2,p3], [p1,a1,a2,p2,a3,p3], [p1,a1,a2,p2,p3,a3],
     [p1,a1,p2,a2,a3,p3], [p1,a1,p2,a2,p3,a3], [p1,a1,p2,p3,a2,a3],
     [p1,p2,a1,a2,a3,p3], [p1,p2,a1,a2,p3,a3], [p1,p2,a1,p3,a2,a3], [p1,p2,p3,a1,a2,a3]}"
  by (simp add: insert_commute) 

subsection \<open>Counting pushes by thread\<close>

lemma count_by_thread:
  fixes evs :: "(nat \<times> 'c) list"
  assumes "\<forall>e\<in>set evs. Q e \<longrightarrow> fst e < P"
  shows "length (filter Q evs) = (\<Sum>p<P. length (filter (\<lambda>e. fst e = p \<and> Q e) evs))"
  using assms
proof (induction evs)
  case Nil then show ?case by simp
next
  case (Cons e evs)
  then have IH: "length (filter Q evs) = (\<Sum>p<P. length (filter (\<lambda>e. fst e = p \<and> Q e) evs))"
    by simp
  show ?case
  proof (cases "Q e")
    case False
    then show ?thesis using IH by simp
  next
    case True
    then have lt: "fst e < P" using Cons.prems by simp
    have "(\<Sum>p<P. length (filter (\<lambda>x. fst x = p \<and> Q x) (e # evs))) =
          (\<Sum>p<P. (if fst e = p then 1 else 0) + length (filter (\<lambda>x. fst x = p \<and> Q x) evs))"
      using True by (intro sum.cong) auto
    also have "\<dots> = (\<Sum>p<P. if fst e = p then 1 else 0) + (\<Sum>p<P. length (filter (\<lambda>x. fst x = p \<and> Q x) evs))"
      by (simp add: sum.distrib)
    also have "(\<Sum>p<P. if fst e = p then 1 else 0) = (1::nat)"
      using lt by (simp add: sum.delta')
    finally show ?thesis using True IH by simp
  qed
qed

lemma payloads_pushed: "length (filter (\<lambda>v. v \<noteq> None) (pushed cs)) = length (filter is_payload_push cs)"
  by (induction cs rule: pushed.induct) auto

lemma eos_pushed: "length (filter (\<lambda>v. v = None) (pushed cs)) = length (filter is_eos_push cs)"
  by (induction cs rule: pushed.induct) auto

subsection \<open>Capacity zero\<close>

lemma call_step_cap0:
  "call_step c b = Some (r, b') \<Longrightarrow> cap b = 0 \<Longrightarrow> q b = [] \<Longrightarrow> c = Size \<and> b' = b"
  by (cases c) (auto simp: push_def pop_def producer_done_def size_bb_def split: if_splits)

lemma run_cap0:
  "run b cs = Some (rs, b') \<Longrightarrow> cap b = 0 \<Longrightarrow> q b = [] \<Longrightarrow> b' = b \<and> (\<forall>c\<in>set cs. c = Size)"
proof (induction cs arbitrary: b rs)
  case Nil then show ?case by simp
next
  case (Cons c cs)
  from Cons.prems(1) obtain r b1 rs1 where s: "call_step c b = Some (r, b1)" and r: "run b1 cs = Some (rs1, b')"
    unfolding run_Cons_Some by blast
  from call_step_cap0[OF s Cons.prems(2,3)] have c: "c = Size" and b1: "b1 = b" by simp_all
  from Cons.IH[OF r[unfolded b1] Cons.prems(2,3)] c show ?case by simp
qed

subsection \<open>Capacity, order and conservation in a run\<close>

text \<open>
  For calls made one after another the buffer keeps its bound: from a new buffer of capacity
  \<open>n\<close> the occupancy stays within \<open>n\<close>, it is the number of slots enqueued minus the number of
  pops, and this holds after every prefix. With \<open>run_fifo\<close> above (slots leave in the order
  in which they entered) and the conservation below these are the properties the buffer is
  meant to have; they are proved of runs, not of overlapping calls.
\<close>

lemma run_capacity_invariant:
  assumes "run (construct n) cs = Some (rs, b)"
  shows "cap b = n \<and> length (q b) \<le> n \<and>
         length (filter is_pop cs) \<le> length (pushed cs) \<and>
         length (q b) = length (pushed cs) - length (filter is_pop cs) \<and>
         (\<forall>k\<le>length cs. \<exists>rs' b'. run (construct n) (take k cs) = Some (rs', b') \<and>
            cap b' = n \<and> length (q b') \<le> n)"
proof -
  have c: "cap b = n" using run_cap[OF assms] by simp
  have l: "length (q b) \<le> n" using run_bound[OF assms] by simp
  have "pushed cs = popped rs @ q b" using run_fifo[OF assms] by simp
  then have "length (pushed cs) = length (filter is_pop cs) + length (q b)"
    using run_popped_length[OF assms] by simp
  then have cnt: "length (filter is_pop cs) \<le> length (pushed cs)"
      "length (q b) = length (pushed cs) - length (filter is_pop cs)" by simp_all
  have pre: "\<exists>rs' b'. run (construct n) (take k cs) = Some (rs', b') \<and> cap b' = n \<and> length (q b') \<le> n" for k
  proof -
    have "run (construct n) (take k cs @ drop k cs) = Some (rs, b)" using assms by simp
    then obtain rs' b' where r: "run (construct n) (take k cs) = Some (rs', b')"
      unfolding run_append by (auto split: option.splits)
    show ?thesis using r run_cap[OF r] run_bound[OF r] by simp
  qed
  show ?thesis using c l cnt pre by blast
qed

lemma run_conservation:
  fixes evs :: "'a event list"
  assumes "run (construct n) (map snd evs) = Some (rs, b)"
    and "q b = []"
    and "\<forall>p<P. length (filter (\<lambda>e. fst e = p \<and> is_payload_push (snd e)) evs) = K"
    and "\<forall>e\<in>set evs. is_payload_push (snd e) \<longrightarrow> fst e < P"
  shows "length (filter (\<lambda>v. v \<noteq> None) (popped rs)) = P * K \<and>
         length (filter (\<lambda>v. v = None) (popped rs)) = length (filter is_eos_push (map snd evs)) \<and>
         mset (popped rs) = mset (pushed (map snd evs))"
proof -
  have eq: "popped rs = pushed (map snd evs)"
    using run_fifo[OF assms(1)] assms(2) by simp
  have "length (filter is_payload_push (map snd evs)) = length (filter (\<lambda>e. is_payload_push (snd e)) evs)"
    by (simp add: filter_map comp_def)
  also have "\<dots> = (\<Sum>p<P. length (filter (\<lambda>e. fst e = p \<and> is_payload_push (snd e)) evs))"
    by (rule count_by_thread) (use assms(4) in blast)
  also have "\<dots> = (\<Sum>p<P. K)" using assms(3) by simp
  finally have pk: "length (filter is_payload_push (map snd evs)) = P * K" by simp
  have 1: "length (filter (\<lambda>v. v \<noteq> None) (popped rs)) = P * K"
    unfolding eq payloads_pushed by (rule pk)
  have 2: "length (filter (\<lambda>v. v = None) (popped rs)) = length (filter is_eos_push (map snd evs))"
    unfolding eq by (rule eos_pushed)
  have 3: "mset (popped rs) = mset (pushed (map snd evs))" by (simp add: eq)
  show ?thesis by (intro conjI 1 2 3)
qed

subsection \<open>Schedules without a race refine runs\<close>

lemma step_PTestBegin:
  "stmt_inv s \<Longrightarrow> stmt_step (PTestBegin data) s = Next ds s' \<Longrightarrow>
     stmt_inv s' \<and> run (buf s) (map fst ds) = Some (map snd ds, buf s')"
  by (cases "in_push s"; cases "in_pop s")
     (auto simp: stmt_inv_def push_def pop_def size_bb_def split: if_splits)

lemma step_PTestEnd:
  "stmt_inv s \<Longrightarrow> stmt_step PTestEnd s = Next ds s' \<Longrightarrow>
     stmt_inv s' \<and> run (buf s) (map fst ds) = Some (map snd ds, buf s')"
  by (cases "in_push s"; cases "in_pop s")
     (auto simp: stmt_inv_def push_def pop_def size_bb_def split: if_splits)

lemma step_PPushBegin:
  "stmt_inv s \<Longrightarrow> stmt_step PPushBegin s = Next ds s' \<Longrightarrow>
     stmt_inv s' \<and> run (buf s) (map fst ds) = Some (map snd ds, buf s')"
  by (cases "in_push s"; cases "in_pop s")
     (auto simp: stmt_inv_def push_def pop_def size_bb_def split: if_splits)

lemma step_PPushEnd:
  "stmt_inv s \<Longrightarrow> stmt_step PPushEnd s = Next ds s' \<Longrightarrow>
     stmt_inv s' \<and> run (buf s) (map fst ds) = Some (map snd ds, buf s')"
  by (cases "in_push s"; cases "in_pop s")
     (auto simp: stmt_inv_def push_def pop_def size_bb_def split: if_splits)

lemma step_PUnlock:
  "stmt_inv s \<Longrightarrow> stmt_step PUnlock s = Next ds s' \<Longrightarrow>
     stmt_inv s' \<and> run (buf s) (map fst ds) = Some (map snd ds, buf s')"
  by (cases "in_push s"; cases "in_pop s")
     (auto simp: stmt_inv_def push_def pop_def size_bb_def split: if_splits)

lemma step_CTestBegin:
  "stmt_inv s \<Longrightarrow> stmt_step CTestBegin s = Next ds s' \<Longrightarrow>
     stmt_inv s' \<and> run (buf s) (map fst ds) = Some (map snd ds, buf s')"
  by (cases "in_push s"; cases "in_pop s")
     (auto simp: stmt_inv_def push_def pop_def size_bb_def split: if_splits)

lemma step_CTestEnd:
  "stmt_inv s \<Longrightarrow> stmt_step CTestEnd s = Next ds s' \<Longrightarrow>
     stmt_inv s' \<and> run (buf s) (map fst ds) = Some (map snd ds, buf s')"
  by (cases "in_push s"; cases "in_pop s")
     (auto simp: stmt_inv_def push_def pop_def size_bb_def split: if_splits)

lemma step_CFrontBegin:
  "stmt_inv s \<Longrightarrow> stmt_step CFrontBegin s = Next ds s' \<Longrightarrow>
     stmt_inv s' \<and> run (buf s) (map fst ds) = Some (map snd ds, buf s')"
  by (cases "in_push s"; cases "in_pop s")
     (auto simp: stmt_inv_def push_def pop_def size_bb_def split: if_splits)

lemma step_CFrontEnd:
  "stmt_inv s \<Longrightarrow> stmt_step CFrontEnd s = Next ds s' \<Longrightarrow>
     stmt_inv s' \<and> run (buf s) (map fst ds) = Some (map snd ds, buf s')"
  by (cases "in_push s"; cases "in_pop s")
     (auto simp: stmt_inv_def push_def pop_def size_bb_def split: if_splits)

lemma step_CPopBegin:
  "stmt_inv s \<Longrightarrow> stmt_step CPopBegin s = Next ds s' \<Longrightarrow>
     stmt_inv s' \<and> run (buf s) (map fst ds) = Some (map snd ds, buf s')"
  by (cases "in_push s"; cases "in_pop s")
     (auto simp: stmt_inv_def push_def pop_def size_bb_def split: if_splits)

lemma step_CPopEnd:
  "stmt_inv s \<Longrightarrow> stmt_step CPopEnd s = Next ds s' \<Longrightarrow>
     stmt_inv s' \<and> run (buf s) (map fst ds) = Some (map snd ds, buf s')"
  by (cases "in_push s"; cases "in_pop s")
     (auto simp: stmt_inv_def push_def pop_def size_bb_def split: if_splits)

lemma step_CUnlock:
  "stmt_inv s \<Longrightarrow> stmt_step CUnlock s = Next ds s' \<Longrightarrow>
     stmt_inv s' \<and> run (buf s) (map fst ds) = Some (map snd ds, buf s')"
  by (cases "in_push s"; cases "in_pop s")
     (auto simp: stmt_inv_def push_def pop_def size_bb_def split: if_splits)

lemma step_SizeBegin:
  "stmt_inv s \<Longrightarrow> stmt_step SizeBegin s = Next ds s' \<Longrightarrow>
     stmt_inv s' \<and> run (buf s) (map fst ds) = Some (map snd ds, buf s')"
  by (cases "in_push s"; cases "in_pop s")
     (auto simp: stmt_inv_def push_def pop_def size_bb_def split: if_splits)

lemma step_SizeEnd:
  "stmt_inv s \<Longrightarrow> stmt_step SizeEnd s = Next ds s' \<Longrightarrow>
     stmt_inv s' \<and> run (buf s) (map fst ds) = Some (map snd ds, buf s')"
  by (cases "in_push s"; cases "in_pop s")
     (auto simp: stmt_inv_def push_def pop_def size_bb_def split: if_splits)

lemma stmt_step_defined: "stmt_inv s \<Longrightarrow> stmt_step st s \<noteq> Undefined"
  by (cases st; cases "in_pop s") (auto simp: stmt_inv_def split: pside.splits)

lemma stmt_step_inv:
  assumes "stmt_inv s" and "stmt_step st s = Next ds s'"
  shows "stmt_inv s' \<and> run (buf s) (map fst ds) = Some (map snd ds, buf s')"
proof (cases st)
  case (PTestBegin data) then show ?thesis using step_PTestBegin assms by blast
next
  case PTestEnd then show ?thesis using step_PTestEnd assms by blast
next
  case PPushBegin then show ?thesis using step_PPushBegin assms by blast
next
  case PPushEnd then show ?thesis using step_PPushEnd assms by blast
next
  case PUnlock then show ?thesis using step_PUnlock assms by blast
next
  case CTestBegin then show ?thesis using step_CTestBegin assms by blast
next
  case CTestEnd then show ?thesis using step_CTestEnd assms by blast
next
  case CFrontBegin then show ?thesis using step_CFrontBegin assms by blast
next
  case CFrontEnd then show ?thesis using step_CFrontEnd assms by blast
next
  case CPopBegin then show ?thesis using step_CPopBegin assms by blast
next
  case CPopEnd then show ?thesis using step_CPopEnd assms by blast
next
  case CUnlock then show ?thesis using step_CUnlock assms by blast
next
  case SizeBegin then show ?thesis using step_SizeBegin assms by blast
next
  case SizeEnd then show ?thesis using step_SizeEnd assms by blast
qed

lemma stmt_run_inv:
  assumes "stmt_inv s"
  shows "stmt_run s sts \<noteq> Undefined \<and>
    (\<forall>ds s'. stmt_run s sts = Next ds s' \<longrightarrow>
       stmt_inv s' \<and> run (buf s) (map fst ds) = Some (map snd ds, buf s'))"
  using assms
proof (induction sts arbitrary: s)
  case Nil then show ?case by simp
next
  case (Cons st sts)
  show ?case
  proof (cases "stmt_step st s")
    case Disabled then show ?thesis by simp
  next
    case DataRace then show ?thesis by simp
  next
    case Undefined then show ?thesis using stmt_step_defined[OF Cons.prems] by simp
  next
    case (Next d1 s1)
    from stmt_step_inv[OF Cons.prems Next]
    have i1: "stmt_inv s1" and r1: "run (buf s) (map fst d1) = Some (map snd d1, buf s1)"
      by simp_all
    note IH = Cons.IH[OF i1]
    note step = Next
    show ?thesis
    proof (cases "stmt_run s1 sts")
      case Disabled then show ?thesis using step by simp
    next
      case DataRace then show ?thesis using step by simp
    next
      case Undefined then show ?thesis using IH by simp
    next
      case (Next d2 s2)
      then have i2: "stmt_inv s2" and r2: "run (buf s1) (map fst d2) = Some (map snd d2, buf s2)"
        using IH by simp_all
      have "run (buf s) (map fst (d1 @ d2)) = Some (map snd (d1 @ d2), buf s2)"
        by (simp add: run_append r1 r2)
      then show ?thesis using i2 Next step by simp
    qed
  qed
qed

text \<open>
  From a new buffer, a schedule of statements on which no race happens never calls
  \<^verbatim>\<open>front()\<close> or \<^verbatim>\<open>pop()\<close> on an empty queue, and the calls it completes, in the order in which
  their operations on \<^verbatim>\<open>q_\<close> end, are a run with the same results and the same buffer. So
  in this model runs describe the schedules on which no two conflicting operations overlap,
  and the only way out of them is the data race.
\<close>

lemma statements_refine_calls:
  "stmt_run (start n) sts \<noteq> Undefined \<and>
   (\<forall>ds s. stmt_run (start n) sts = Next ds s \<longrightarrow>
      run (construct n) (map fst ds) = Some (map snd ds, buf s) \<and>
      length (q (buf s)) \<le> cap (buf s))"
proof -
  have i: "stmt_inv (start n)" by (simp add: stmt_inv_def start_def)
  have b: "buf (start n) = construct n" by (simp add: start_def)
  show ?thesis using stmt_run_inv[OF i, of sts] unfolding b by (auto simp: stmt_inv_def)
qed

section \<open>The claims\<close>

text \<open>
  C1. Capacity invariant: the occupancy stays between 0 and the capacity in every state the
  buffer reaches. The code aims at it, by waiting for \<^verbatim>\<open>q_.size() < cap_\<close> under a mutex, and
  on threads misses it. Capacity 2, the slot 1 queued: a consumer is inside \<^verbatim>\<open>q_.pop()\<close>
  when a producer enters \<^verbatim>\<open>push(2)\<close> and tests \<^verbatim>\<open>q_.size() < cap_\<close>. The test reads the queue
  that the pop is writing, each under its own mutex: a data race, after which nothing is
  defined, the occupancy least of all. The same happens when a thread calls \<^verbatim>\<open>size()\<close>, which
  takes no mutex, while a producer is inside \<^verbatim>\<open>q_.push\<close>. Up to the racing statement the
  schedule is an ordinary one.
\<close>

theorem capacity_test_races_with_pop:
  "stmt_run (start 2)
     [PTestBegin (Some (1::int)), PTestEnd, PPushBegin, PPushEnd, PUnlock,
      CTestBegin, CTestEnd, CFrontBegin, CFrontEnd, CPopBegin] =
     Next [(Push (Some 1), Void)]
       \<lparr>buf = \<lparr>q = [Some 1], cap = 2\<rparr>, in_push = PIdle, in_pop = CPopping (Some 1), in_size = 0\<rparr> \<and>
   stmt_run (start 2)
     [PTestBegin (Some (1::int)), PTestEnd, PPushBegin, PPushEnd, PUnlock,
      CTestBegin, CTestEnd, CFrontBegin, CFrontEnd, CPopBegin, PTestBegin (Some 2)] = DataRace \<and>
   stmt_run (start 2) [PTestBegin (Some (1::int)), PTestEnd, PPushBegin, SizeBegin] = DataRace"
  by (simp add: start_def construct_def)

text \<open>
  C2. FIFO: slots are dequeued in the order in which they were enqueued. The code aims at it
  with a \<^verbatim>\<open>std::queue\<close> and on threads misses it. Capacity 2, the slot 1 queued: a consumer
  is inside \<^verbatim>\<open>q_.front()\<close> when a producer, past its wait, begins \<^verbatim>\<open>q_.push(2)\<close>. The push
  writes the queue that \<^verbatim>\<open>front()\<close> is reading, each under its own mutex: a data race,
  after which what the pop returns is not defined. Up to the racing statement the schedule
  is an ordinary one.
\<close>

theorem front_races_with_push:
  "stmt_run (start 2)
     [PTestBegin (Some (1::int)), PTestEnd, PPushBegin, PPushEnd, PUnlock,
      CTestBegin, CTestEnd, CFrontBegin, PTestBegin (Some 2), PTestEnd] =
     Next [(Push (Some 1), Void)]
       \<lparr>buf = \<lparr>q = [Some 1], cap = 2\<rparr>, in_push = PPassed (Some 2), in_pop = CFronting, in_size = 0\<rparr> \<and>
   stmt_run (start 2)
     [PTestBegin (Some (1::int)), PTestEnd, PPushBegin, PPushEnd, PUnlock,
      CTestBegin, CTestEnd, CFrontBegin, PTestBegin (Some 2), PTestEnd, PPushBegin] = DataRace"
  by (simp add: start_def construct_def)

text \<open>
  C3. When the occupancy is below the capacity, \<open>push v\<close> completes: it appends \<open>v\<close> at the
  tail of the queue and changes nothing else, so the occupancy that \<open>size\<close> reports grows by
  exactly one and the capacity stays. It returns nothing besides the buffer.
\<close>

theorem push_enabled_appends:
  assumes "length (q b) < cap b"
  shows "push v b = Some (b\<lparr>q := q b @ [v]\<rparr>) \<and>
         (\<forall>b'. push v b = Some b' \<longrightarrow>
            q b' = q b @ [v] \<and> fst (size_bb b') = fst (size_bb b) + 1 \<and> cap b' = cap b)"
  using assms by (simp add: push_def size_bb_def)

theorem push_enabled_appends_witness:
  "length (q \<lparr>q = [Some (7::int)], cap = 2\<rparr>) < cap \<lparr>q = [Some (7::int)], cap = 2\<rparr> \<and>
   push None \<lparr>q = [Some (7::int)], cap = 2\<rparr> = Some \<lparr>q = [Some 7, None], cap = 2\<rparr>"
  using push_enabled_appends [of "\<lparr>q = [Some (7::int)], cap = 2\<rparr>" None] by simp

text \<open>
  C4. When the occupancy is positive, \<open>pop\<close> completes: it returns the head of the queue and
  leaves the tail, so the occupancy that \<open>size\<close> reports drops by exactly one and the capacity
  stays. The value returned is a payload \<open>Some x\<close> or the end-of-stream marker \<open>None\<close>.
\<close>

theorem pop_enabled_removes_head:
  assumes "0 < length (q b)"
  shows "pop b = Some (hd (q b), b\<lparr>q := tl (q b)\<rparr>) \<and>
         (\<forall>v b'. pop b = Some (v, b') \<longrightarrow>
            q b = v # q b' \<and> fst (size_bb b') + 1 = fst (size_bb b) \<and> cap b' = cap b \<and>
            (v = None \<or> (\<exists>x. v = Some x)))"
  using assms by (cases "q b") (auto simp add: pop_def size_bb_def)

theorem pop_enabled_removes_head_witness:
  "0 < length (q \<lparr>q = [Some (7::int), None], cap = 2\<rparr>) \<and>
   pop \<lparr>q = [Some (7::int), None], cap = 2\<rparr> = Some (Some 7, \<lparr>q = [None], cap = 2\<rparr>)"
  using pop_enabled_removes_head [of "\<lparr>q = [Some (7::int), None], cap = 2\<rparr>"] by simp

text \<open>
  C5, as amended. Capacity 2. The pushes of 1 and 2 on the new buffer both complete with no
  pop: the second push does not wait. A push of 3 entered then waits, so it is the third
  push that cannot complete before the first pop. For the producer's pushes of 1, 2, 3 and
  the consumer's three pops made one after another: of their twenty interleavings exactly
  four are runs, those in which no push meets a full buffer and no pop an empty one; in
  each of the four the pops return 1, 2, 3 in this order and leave the buffer empty, and
  every interleaving with the third push before the first pop is none of them.
\<close>

theorem scenario_capacity_two:
  "run (construct 2) [Push (Some 1), Push (Some (2::int))] =
     Some ([Void, Void], \<lparr>q = [Some 1, Some 2], cap = 2\<rparr>) \<and>
   push (Some 3) \<lparr>q = [Some 1, Some (2::int)], cap = 2\<rparr> = None \<and>
   (tr \<in> shuffles [Push (Some 1), Push (Some 2), Push (Some (3::int))] [Pop, Pop, Pop] \<longrightarrow>
      map_option (\<lambda>(rs, b). (popped rs, b)) (run (construct 2) tr) =
        (if tr \<in> {[Push (Some 1), Pop, Push (Some 2), Pop, Push (Some 3), Pop],
                   [Push (Some 1), Pop, Push (Some 2), Push (Some 3), Pop, Pop],
                   [Push (Some 1), Push (Some 2), Pop, Pop, Push (Some 3), Pop],
                   [Push (Some 1), Push (Some 2), Pop, Push (Some 3), Pop, Pop]}
         then Some ([Some 1, Some 2, Some 3], construct 2) else None) \<and>
      (Push (Some 3) \<in> set (before_first_pop tr) \<longrightarrow> run (construct 2) tr = None))"
proof (intro conjI impI)
  show "run (construct 2) [Push (Some 1), Push (Some (2::int))] =
     Some ([Void, Void], \<lparr>q = [Some 1, Some 2], cap = 2\<rparr>)"
    by (simp add: construct_def push_def)
  show "push (Some 3) \<lparr>q = [Some 1, Some (2::int)], cap = 2\<rparr> = None"
    by (simp add: push_def)
next
  assume "tr \<in> shuffles [Push (Some 1), Push (Some 2), Push (Some (3::int))] [Pop, Pop, Pop]"
  then show "map_option (\<lambda>(rs, b). (popped rs, b)) (run (construct 2) tr) =
        (if tr \<in> {[Push (Some 1), Pop, Push (Some 2), Pop, Push (Some 3), Pop],
                   [Push (Some 1), Pop, Push (Some 2), Push (Some 3), Pop, Pop],
                   [Push (Some 1), Push (Some 2), Pop, Pop, Push (Some 3), Pop],
                   [Push (Some 1), Push (Some 2), Pop, Push (Some 3), Pop, Pop]}
         then Some ([Some 1, Some 2, Some 3], construct 2) else None)"
    unfolding shuffles_scenario
    by (elim insertE emptyE; simp add: construct_def push_def pop_def)
next
  assume "tr \<in> shuffles [Push (Some 1), Push (Some 2), Push (Some (3::int))] [Pop, Pop, Pop]"
    and "Push (Some 3) \<in> set (before_first_pop tr)"
  then show "run (construct 2) tr = None"
    unfolding shuffles_scenario
    by (elim insertE emptyE; simp add: construct_def push_def pop_def)
qed

theorem scenario_capacity_two_witness:
  "[Push (Some 1), Pop, Push (Some 2), Push (Some 3), Pop, Pop]
     \<in> shuffles [Push (Some 1), Push (Some 2), Push (Some (3::int))] [Pop, Pop, Pop] \<and>
   map_option (\<lambda>(rs, b). (popped rs, b))
     (run (construct 2) [Push (Some (1::int)), Pop, Push (Some 2), Push (Some 3), Pop, Pop]) =
     Some ([Some 1, Some 2, Some 3], construct 2) \<and>
   [Push (Some 1), Push (Some 2), Push (Some 3), Pop, Pop, Pop]
     \<in> shuffles [Push (Some 1), Push (Some 2), Push (Some (3::int))] [Pop, Pop, Pop] \<and>
   Push (Some 3) \<in> set (before_first_pop [Push (Some 1), Push (Some 2), Push (Some (3::int)), Pop, Pop, Pop]) \<and>
   run (construct 2) [Push (Some 1), Push (Some 2), Push (Some (3::int)), Pop, Pop, Pop] = None"
proof -
  let ?t1 = "[Push (Some (1::int)), Pop, Push (Some 2), Push (Some 3), Pop, Pop]"
  let ?t2 = "[Push (Some (1::int)), Push (Some 2), Push (Some 3), Pop, Pop, Pop]"
  have m1: "?t1 \<in> shuffles [Push (Some 1), Push (Some 2), Push (Some (3::int))] [Pop, Pop, Pop]"
    unfolding shuffles_scenario by simp
  have m2: "?t2 \<in> shuffles [Push (Some 1), Push (Some 2), Push (Some (3::int))] [Pop, Pop, Pop]"
    unfolding shuffles_scenario by simp
  have b2: "Push (Some 3) \<in> set (before_first_pop ?t2)" by simp
  note a1 = scenario_capacity_two [of ?t1, THEN conjunct2, THEN conjunct2, THEN mp, OF m1, THEN conjunct1]
  note a2 = scenario_capacity_two [of ?t2, THEN conjunct2, THEN conjunct2, THEN mp, OF m2, THEN conjunct2, THEN mp, OF b2]
  have r1: "map_option (\<lambda>(rs, b). (popped rs, b)) (run (construct 2) ?t1) =
     Some ([Some 1, Some 2, Some 3], construct 2)"
    using a1 by simp
  show ?thesis by (intro conjI m1 r1 m2 b2 a2)
qed

text \<open>
  C5 as stated fails: on the new buffer of capacity 2 the push of 1 and then the push of 2
  both complete, and no pop has happened.
\<close>

theorem scenario_second_push_counterexample:
  "push (Some (1::int)) (construct 2) = Some \<lparr>q = [Some 1], cap = 2\<rparr> \<and>
   push (Some 2) \<lparr>q = [Some (1::int)], cap = 2\<rparr> = Some \<lparr>q = [Some 1, Some 2], cap = 2\<rparr> \<and>
   run (construct 2) [Push (Some 1), Push (Some (2::int))] =
     Some ([Void, Void], \<lparr>q = [Some 1, Some 2], cap = 2\<rparr>)"
  by (simp add: construct_def push_def)

text \<open>
  C6. Conservation: what is pushed is what is popped, nothing lost and nothing duplicated.
  The code aims at it and on threads misses it. Capacity 2, two producers with one payload
  each: the first has pushed 10; a consumer has read it with \<^verbatim>\<open>front()\<close> and begins
  \<^verbatim>\<open>q_.pop()\<close> while the second producer is inside \<^verbatim>\<open>q_.push(20)\<close>. Both write the queue,
  each under its own mutex: a data race, after which the content of the queue is not
  defined. Up to the racing statement the schedule is an ordinary one.
\<close>

theorem pop_races_with_second_producer:
  "stmt_run (start 2)
     [PTestBegin (Some (10::int)), PTestEnd, PPushBegin, PPushEnd, PUnlock,
      CTestBegin, CTestEnd, CFrontBegin, CFrontEnd, PTestBegin (Some 20), PTestEnd, PPushBegin] =
     Next [(Push (Some 10), Void)]
       \<lparr>buf = \<lparr>q = [Some 10], cap = 2\<rparr>, in_push = PPushing (Some 20),
        in_pop = CFetched (Some 10), in_size = 0\<rparr> \<and>
   stmt_run (start 2)
     [PTestBegin (Some (10::int)), PTestEnd, PPushBegin, PPushEnd, PUnlock,
      CTestBegin, CTestEnd, CFrontBegin, CFrontEnd, PTestBegin (Some 20), PTestEnd, PPushBegin,
      CPopBegin] = DataRace"
  by (simp add: start_def construct_def)



text \<open>
  C8. \<open>construct\<close> checks nothing: for every capacity it returns the empty buffer with that
  capacity, also for capacity 0.
\<close>

theorem construct_unchecked:
  "construct n = \<lparr>q = [], cap = n\<rparr> \<and> cap (construct 0) = 0 \<and> q (construct 0) = []"
  by (simp add: construct_def)

text \<open>
  C9. A buffer constructed with capacity 0: every run on it consists of \<open>size\<close> calls only,
  its state stays the empty buffer of capacity 0, and in that state no \<open>push\<close>, whatever the
  value, and no \<open>producer_done\<close> completes.
\<close>

theorem capacity_zero_never_pushes:
  assumes "run (construct 0) cs = Some (rs, b)"
  shows "b = construct 0 \<and> q b = [] \<and> cap b = 0 \<and>
         (\<forall>v. push v b = None) \<and> producer_done b = None \<and>
         (\<forall>c\<in>set cs. c = Size) \<and> pushed cs = []"
proof -
  from run_cap0[OF assms] have b: "b = construct 0" and sz: "\<forall>c\<in>set cs. c = Size" by simp_all
  have "pushed cs = []" using sz by (induction cs rule: pushed.induct) simp_all
  then show ?thesis using b sz by (simp add: push_def producer_done_def)
qed

theorem capacity_zero_never_pushes_witness:
  "run (construct 0) [Size, Size] = Some ([Count 0, Count 0], construct 0 :: int BoundedBuffer) \<and>
   push (Some 1) (construct 0 :: int BoundedBuffer) = None \<and>
   producer_done (construct 0 :: int BoundedBuffer) = None"
proof -
  have h: "run (construct 0) [Size, Size] = Some ([Count 0, Count 0], construct 0 :: int BoundedBuffer)"
    by (simp add: construct_def size_bb_def)
  note t = capacity_zero_never_pushes [OF h]
  from t have 1: "push (Some 1) (construct 0 :: int BoundedBuffer) = None" by blast
  from t have 2: "producer_done (construct 0 :: int BoundedBuffer) = None" by blast
  show ?thesis by (intro conjI h 1 2)
qed

text \<open>
  C10. Frame. A completed \<open>push\<close> leaves every slot that was in the queue at its position and
  adds one slot behind them; a completed \<open>pop\<close> removes the head and leaves every other slot,
  in order, one position nearer the front; neither changes the capacity; \<open>size\<close> changes
  nothing at all.
\<close>

theorem frame_push_pop_size:
  "(push v b = Some b' \<longrightarrow>
      q b' = q b @ [v] \<and> (\<forall>i<length (q b). q b' ! i = q b ! i) \<and> cap b' = cap b) \<and>
   (pop b = Some (w, b'') \<longrightarrow>
      q b = w # q b'' \<and> (\<forall>i<length (q b''). q b'' ! i = q b ! Suc i) \<and> cap b'' = cap b) \<and>
   snd (size_bb b) = b"
proof (intro conjI impI allI)
  assume p: "push v b = Some b'"
  then show 1: "q b' = q b @ [v]" by (auto simp: push_def split: if_splits)
  show "cap b' = cap b" using p by (auto simp: push_def split: if_splits)
  fix i assume "i < length (q b)"
  then show "q b' ! i = q b ! i" by (simp add: 1 nth_append)
next
  assume p: "pop b = Some (w, b'')"
  then show 2: "q b = w # q b''" by (cases "q b") (auto simp: pop_def split: if_splits)
  show "cap b'' = cap b" using p by (auto simp: pop_def split: if_splits)
  fix i assume "i < length (q b'')"
  show "q b'' ! i = q b ! Suc i" by (simp add: 2)
next
  show "snd (size_bb b) = b" by (simp add: size_bb_def)
qed

theorem frame_push_pop_size_witness:
  "push (Some 9) \<lparr>q = [Some (7::int), None], cap = 3\<rparr> = Some \<lparr>q = [Some 7, None, Some 9], cap = 3\<rparr> \<and>
   q \<lparr>q = [Some (7::int), None, Some 9], cap = 3\<rparr> = q \<lparr>q = [Some (7::int), None], cap = 3\<rparr> @ [Some 9] \<and>
   pop \<lparr>q = [Some (7::int), None], cap = 3\<rparr> = Some (Some 7, \<lparr>q = [None], cap = 3\<rparr>) \<and>
   q \<lparr>q = [Some (7::int), None], cap = 3\<rparr> = Some 7 # q \<lparr>q = [None :: int option], cap = 3\<rparr> \<and>
   cap \<lparr>q = [None :: int option], cap = 3\<rparr> = cap \<lparr>q = [Some (7::int), None], cap = 3\<rparr>"
proof -
  have h1: "push (Some 9) \<lparr>q = [Some (7::int), None], cap = 3\<rparr> = Some \<lparr>q = [Some 7, None, Some 9], cap = 3\<rparr>"
    by (simp add: push_def)
  have h2: "pop \<lparr>q = [Some (7::int), None], cap = 3\<rparr> = Some (Some 7, \<lparr>q = [None], cap = 3\<rparr>)"
    by (simp add: pop_def)
  note f = frame_push_pop_size [of "Some 9" "\<lparr>q = [Some (7::int), None], cap = 3\<rparr>"
      "\<lparr>q = [Some 7, None, Some 9], cap = 3\<rparr>" "Some 7" "\<lparr>q = [None], cap = 3\<rparr>"]
  note p = f [THEN conjunct1, THEN mp, OF h1]
  note o = f [THEN conjunct2, THEN conjunct1, THEN mp, OF h2]
  show ?thesis
    by (intro conjI h1 h2 p [THEN conjunct1] o [THEN conjunct1] o [THEN conjunct2, THEN conjunct2])
qed

end
